theory Spec2Isabelle
  imports Main
begin

section \<open>The path finder of common/path\_finder.cpp\<close>

text \<open>
  A shallow embedding of \<^verbatim>\<open>freeciv::path_finder\<close> and of the helper types of namespace
  \<^verbatim>\<open>freeciv::detail\<close>. Pointers to tiles and to units are identities: a tile is the
  natural number that orders it among the keys of the \<^verbatim>\<open>std::multimap\<close>, a transporter is
  the natural number of the unit it points to, and a null pointer is \<open>None\<close>.

  The fields of a cost are C++ \<^verbatim>\<open>int\<close>s. Signed overflow is undefined behaviour, so the
  program has a meaning only where no operation overflows, and there the operations agree
  with those on \<open>int\<close> used below.
\<close>

subsection \<open>Data\<close>

type_synonym tile = nat
type_synonym unit_ref = nat
type_synonym utype = nat

text \<open>
  \<^verbatim>\<open>struct cost\<close>. The header that declares it is not part of the file; the aggregate
  initialiser of \<^verbatim>\<open>insert_initial_vertex\<close> passes five values
  \<^verbatim>\<open>{0, 0, unit.moves_left, unit.hp, unit.fuel}\<close>, so a second member stands between
  \<open>turns\<close> and \<open>moves_left\<close>. No function of the file names it: it is copied with the
  cost it belongs to and nothing else.
\<close>

record cost =
  turns :: int
  cost_second :: int
  moves_left :: int
  health :: int
  fuel_left :: int

datatype unit_orders = ORDER_MOVE | ORDER_FULL_MP | ORDER_PERFORM_ACTION

datatype action_id =
    ACTION_TRANSPORT_BOARD
  | ACTION_TRANSPORT_EMBARK
  | ACTION_TRANSPORT_ALIGHT
  | ACTION_TRANSPORT_DISEMBARK1
  | ACTION_TRANSPORT_DISEMBARK2

datatype direction8 = DIR8_ORIGIN | DIR8 nat

text \<open>\<^verbatim>\<open>struct unit_order\<close>, the four members the file writes.\<close>

record unit_order =
  order_order :: unit_orders
  order_action :: action_id
  order_target :: int
  order_dir :: direction8

text \<open>
  \<^verbatim>\<open>struct vertex\<close>. \<open>parent\<close> is a non-owning pointer to a vertex held by
  \<^verbatim>\<open>best_vertices\<close>; a vertex is never written after it was stored, so the pointer is
  modelled by the value it points to. The model does not follow the lifetime of the
  pointee.
\<close>

datatype vertex = Vertex
  (location: tile)
  (loaded: "unit_ref option")
  (moved: bool)
  (cost: cost)
  (parent: "vertex option")
  (order: unit_order)

text \<open>\<^verbatim>\<open>struct unit\<close>, the members the path finder reads or writes.\<close>

record unit_rec =
  u_tile :: tile
  u_transporter :: "unit_ref option"
  u_transported_by :: int
  u_moved :: bool
  u_fuel :: int
  u_hp :: int
  u_moves_left :: int
  u_stay :: bool
  u_utype :: utype

subsection \<open>Costs\<close>

text \<open>\<^verbatim>\<open>cost::comparable\<close>.\<close>

definition cost_comparable :: "cost \<Rightarrow> cost \<Rightarrow> bool" where
  "cost_comparable this other =
     (let a = turns other - turns this;
          b = moves_left this - moves_left other;
          c = health this - health other;
          d = fuel_left this - fuel_left other
      in (a \<le> 0 \<and> b \<le> 0 \<and> c \<le> 0 \<and> d \<le> 0) \<or> (a \<ge> 0 \<and> b \<ge> 0 \<and> c \<ge> 0 \<and> d \<ge> 0))"

text \<open>
  \<^verbatim>\<open>operator<\<close> of a \<^verbatim>\<open>std::tuple\<close> of four \<^verbatim>\<open>int\<close>s: the first position where one side is
  less than the other decides.
\<close>

definition tie4_less :: "int \<times> int \<times> int \<times> int \<Rightarrow> int \<times> int \<times> int \<times> int \<Rightarrow> bool" where
  "tie4_less x y =
     (case x of (x1, x2, x3, x4) \<Rightarrow> case y of (y1, y2, y3, y4) \<Rightarrow>
        if x1 < y1 then True else if y1 < x1 then False
        else if x2 < y2 then True else if y2 < x2 then False
        else if x3 < y3 then True else if y3 < x3 then False
        else x4 < y4)"

text \<open>\<^verbatim>\<open>cost::operator==\<close>: the two tuples mix the members of both sides.\<close>

definition cost_eq :: "cost \<Rightarrow> cost \<Rightarrow> bool" where
  "cost_eq this other =
     ((turns this, moves_left other, health other, fuel_left other)
        = (turns other, moves_left this, health this, fuel_left this))"

text \<open>\<^verbatim>\<open>cost::operator<\<close>.\<close>

definition cost_less :: "cost \<Rightarrow> cost \<Rightarrow> bool" where
  "cost_less this other =
     tie4_less (turns this, moves_left other, health other, fuel_left other)
               (turns other, moves_left this, health this, fuel_left this)"

subsection \<open>Vertices\<close>

text \<open>\<^verbatim>\<open>vertex::comparable\<close>.\<close>

definition vertex_comparable :: "vertex \<Rightarrow> vertex \<Rightarrow> bool" where
  "vertex_comparable this other =
     ((location this, loaded this, moved this) = (location other, loaded other, moved other)
      \<and> cost_comparable (cost this) (cost other))"

text \<open>
  \<^verbatim>\<open>vertex::operator==\<close>. The right-hand tuple is
  \<^verbatim>\<open>std::tie(other.location, loaded, moved, other.cost)\<close>: its second and third
  components are the members of \<^verbatim>\<open>this\<close>.
\<close>

definition vertex_eq :: "vertex \<Rightarrow> vertex \<Rightarrow> bool" where
  "vertex_eq this other =
     (location this = location other \<and> loaded this = loaded this \<and> moved this = moved this
      \<and> cost_eq (cost this) (cost other))"

text \<open>\<^verbatim>\<open>vertex::operator>\<close>, the order of the priority queue.\<close>

definition vertex_greater :: "vertex \<Rightarrow> vertex \<Rightarrow> bool" where
  "vertex_greater this other = cost_less (cost other) (cost this)"

subsection \<open>The game's rules, as the path finder calls them\<close>

text \<open>
  The map, the ruleset and the action rules are declared outside the file. Each function
  the path finder calls is a member of \<open>rules\<close>, named as in the source and taking the
  arguments the result can depend on. \<open>unit_restore_hitpoints\<close> returns the unit it
  writes; \<open>tile_terrain_known t\<close> is \<^verbatim>\<open>t->terrain != nullptr\<close>; \<open>unit_id\<close> and
  \<open>tile_index\<close> read \<^verbatim>\<open>loaded->id\<close> and \<^verbatim>\<open>target->index\<close>; \<open>zero_order\<close> is the
  value-initialised \<^verbatim>\<open>unit_order\<close> of the root vertex.
\<close>

record rules =
  unit_move_rate :: "unit_rec \<Rightarrow> int"
  utype_fuel :: "utype \<Rightarrow> int"
  is_unit_being_refueled :: "unit_rec \<Rightarrow> bool"
  unit_restore_hitpoints :: "unit_rec \<Rightarrow> unit_rec"
  adjc_dir_iterate :: "tile \<Rightarrow> (tile \<times> direction8) list"
  adjc_iterate :: "tile \<Rightarrow> tile list"
  tile_terrain_known :: "tile \<Rightarrow> bool"
  unit_can_move_to_tile :: "unit_rec \<Rightarrow> tile \<Rightarrow> bool"
  map_move_cost_unit :: "unit_rec \<Rightarrow> tile \<Rightarrow> int"
  unit_pays_mp_for_action :: "action_id \<Rightarrow> unit_rec \<Rightarrow> int"
  transporter_for_unit :: "unit_rec \<Rightarrow> unit_ref option"
  is_action_enabled_unit_on_unit :: "action_id \<Rightarrow> unit_rec \<Rightarrow> unit_ref \<Rightarrow> bool"
  is_action_enabled_unit_on_tile :: "action_id \<Rightarrow> unit_rec \<Rightarrow> tile \<Rightarrow> bool"
  unit_id :: "unit_ref \<Rightarrow> int"
  tile_index :: "tile \<Rightarrow> int"
  zero_order :: unit_order

text \<open>\<^verbatim>\<open>vertex::fill_probe\<close>.\<close>

definition fill_probe :: "rules \<Rightarrow> vertex \<Rightarrow> unit_rec \<Rightarrow> unit_rec" where
  "fill_probe r v probe =
     probe\<lparr>u_tile := location v,
           u_transporter := loaded v,
           u_transported_by := (case loaded v of Some t \<Rightarrow> unit_id r t | None \<Rightarrow> - 1),
           u_moved := moved v,
           u_fuel := fuel_left (cost v),
           u_hp := health (cost v),
           u_moves_left := moves_left (cost v)\<rparr>"

text \<open>
  \<^verbatim>\<open>vertex::child_for_action\<close>. The copy keeps the location of \<^verbatim>\<open>this\<close>, and
  \<open>moves_left\<close> is assigned what the action costs.
\<close>

definition child_for_action :: "rules \<Rightarrow> vertex \<Rightarrow> action_id \<Rightarrow> unit_rec \<Rightarrow> tile \<Rightarrow> vertex" where
  "child_for_action r this act probe target =
     Vertex (location this) (loaded this) (moved this)
       ((cost this)\<lparr>moves_left := unit_pays_mp_for_action r act probe\<rparr>)
       (Some this)
       \<lparr>order_order = ORDER_PERFORM_ACTION, order_action = act,
        order_target = tile_index r target, order_dir = DIR8_ORIGIN\<rparr>"

subsection \<open>The containers\<close>

text \<open>
  \<^verbatim>\<open>queue\<close> is a \<^verbatim>\<open>std::priority_queue\<close> ordered by \<^verbatim>\<open>vertex::operator>\<close>: the top is a
  vertex than which none costs less. The list holds the vertices in the order they were
  pushed; of several vertices of least cost the model takes the one pushed first (the
  heap leaves that choice open; the general results below use only that the top is in
  the queue and that popping removes it). \<open>queue_top\<close> is \<open>None\<close> on an empty queue,
  where \<^verbatim>\<open>top()\<close> is undefined.
\<close>

fun queue_min :: "vertex \<Rightarrow> vertex list \<Rightarrow> vertex" where
  "queue_min best [] = best"
| "queue_min best (v # vs) = queue_min (if vertex_greater best v then v else best) vs"

definition queue_top :: "vertex list \<Rightarrow> vertex option" where
  "queue_top q = (case q of [] \<Rightarrow> None | v # vs \<Rightarrow> Some (queue_min v vs))"

definition queue_pop :: "vertex list \<Rightarrow> vertex list" where
  "queue_pop q = (case queue_top q of None \<Rightarrow> q | Some v \<Rightarrow> remove1 v q)"

definition queue_push :: "vertex \<Rightarrow> vertex list \<Rightarrow> vertex list" where
  "queue_push v q = q @ [v]"

text \<open>
  \<^verbatim>\<open>best_vertices\<close> is a \<^verbatim>\<open>std::multimap\<close> from tiles to vertices (its declaration is in
  the header; the file includes \<^verbatim>\<open>map\<close>): a list of pairs in the order of iteration, that
  is by key, equal keys in the order of insertion. An iterator is an index into the list
  and \<^verbatim>\<open>end()\<close> is its length. \<^verbatim>\<open>emplace\<close> inserts after the entries of the same key,
  and \<^verbatim>\<open>find\<close> returns the first entry of the key.
\<close>

type_synonym multimap = "(tile \<times> vertex) list"

definition lower_bound :: "multimap \<Rightarrow> tile \<Rightarrow> nat" where
  "lower_bound m k = length (takeWhile (\<lambda>p. fst p < k) m)"

definition upper_bound :: "multimap \<Rightarrow> tile \<Rightarrow> nat" where
  "upper_bound m k = length (takeWhile (\<lambda>p. fst p \<le> k) m)"

text \<open>The entries between the two iterators of \<^verbatim>\<open>equal_range\<close>.\<close>

definition equal_range :: "multimap \<Rightarrow> tile \<Rightarrow> multimap" where
  "equal_range m k = take (upper_bound m k - lower_bound m k) (drop (lower_bound m k) m)"

definition emplace :: "multimap \<Rightarrow> tile \<Rightarrow> vertex \<Rightarrow> multimap" where
  "emplace m k v = take (upper_bound m k) m @ (k, v) # drop (upper_bound m k) m"

definition multimap_find :: "multimap \<Rightarrow> tile \<Rightarrow> nat" where
  "multimap_find m k =
     (let i = lower_bound m k in if i < length m \<and> fst (m ! i) = k then i else length m)"

text \<open>\<^verbatim>\<open>std::find_if\<close> over the entries from \<open>b\<close> up to \<open>e\<close>: \<open>e\<close> when none satisfies \<open>P\<close>.\<close>

definition find_if :: "multimap \<Rightarrow> nat \<Rightarrow> nat \<Rightarrow> (tile \<times> vertex \<Rightarrow> bool) \<Rightarrow> nat" where
  "find_if m b e P = b + length (takeWhile (\<lambda>p. \<not> P p) (take (e - b) (drop b m)))"

subsection \<open>The search state\<close>

record path_finder_private =
  unit :: unit_rec
  queue :: "vertex list"
  best_vertices :: multimap

datatype error = TopOfEmptyQueue | NullBestVertex

text \<open>\<^verbatim>\<open>insert_initial_vertex\<close>.\<close>

definition initial_vertex :: "rules \<Rightarrow> unit_rec \<Rightarrow> vertex" where
  "initial_vertex r u =
     Vertex (u_tile u) (u_transporter u) (u_moved u)
       \<lparr>turns = 0, cost_second = 0, moves_left = u_moves_left u, health = u_hp u,
        fuel_left = u_fuel u\<rparr>
       None (zero_order r)"

definition insert_initial_vertex :: "rules \<Rightarrow> path_finder_private \<Rightarrow> path_finder_private" where
  "insert_initial_vertex r pf =
     (let v = initial_vertex r (unit pf)
      in pf\<lparr>queue := queue_push v (queue pf),
            best_vertices := emplace (best_vertices pf) (location v) v\<rparr>)"

text \<open>The constructor copies the unit and inserts the initial vertex.\<close>

definition path_finder_new :: "rules \<Rightarrow> unit_rec \<Rightarrow> path_finder_private" where
  "path_finder_new r u = insert_initial_vertex r \<lparr>unit = u, queue = [], best_vertices = []\<rparr>"

subsection \<open>maybe\_insert\_vertex\<close>

text \<open>
  The turn change of \<^verbatim>\<open>maybe_insert_vertex\<close>, taken when \<^verbatim>\<open>v.cost.moves_left <= 0\<close>:
  \<open>None\<close> where the function returns without a vertex, else the vertex \<^verbatim>\<open>insert\<close>.
\<close>

definition turn_change :: "rules \<Rightarrow> unit_rec \<Rightarrow> vertex \<Rightarrow> vertex option" where
  "turn_change r u v =
     (let probe = fill_probe r v u;
          c1 = (cost v)\<lparr>turns := turns (cost v) + 1, moves_left := unit_move_rate r probe\<rparr>;
          fuel =
            (if utype_fuel r (u_utype probe) \<noteq> 0 then
               if is_unit_being_refueled r probe then
                 Some (probe\<lparr>u_fuel := utype_fuel r (u_utype probe)\<rparr>,
                       c1\<lparr>fuel_left := utype_fuel r (u_utype probe)\<rparr>)
               else if u_fuel probe \<le> 1 then None
               else Some (probe\<lparr>u_fuel := u_fuel probe - 1\<rparr>, c1\<lparr>fuel_left := fuel_left c1 - 1\<rparr>)
             else Some (probe, c1))
      in case fuel of
           None \<Rightarrow> None
         | Some (probe1, c2) \<Rightarrow>
             (let probe2 = unit_restore_hitpoints r probe1
              in if u_hp probe2 \<le> 0 then None
                 else Some (Vertex (location v) (loaded v) False (c2\<lparr>health := u_hp probe2\<rparr>)
                              (parent v) (order v))))"

text \<open>
  The loop over the entries of the bucket: the entries that stay, and \<^verbatim>\<open>do_insert\<close>.
\<close>

fun scan_bucket :: "multimap \<Rightarrow> vertex \<Rightarrow> multimap \<times> bool" where
  "scan_bucket [] ins = ([], True)"
| "scan_bucket (e # es) ins =
     (if vertex_comparable (snd e) ins \<and> cost_less (cost ins) (cost (snd e))
      then scan_bucket es ins
      else if vertex_comparable (snd e) ins then (e # es, False)
      else (case scan_bucket es ins of (es', do_insert) \<Rightarrow> (e # es', do_insert)))"

text \<open>
  \<^verbatim>\<open>maybe_insert_vertex\<close>: the turn change where \<^verbatim>\<open>v.cost.moves_left <= 0\<close>, then the scan
  of the bucket of \<^verbatim>\<open>v.location\<close>, then the insertion.
\<close>

definition handle_turn_change :: "rules \<Rightarrow> unit_rec \<Rightarrow> vertex \<Rightarrow> vertex option" where
  "handle_turn_change r u v = (if moves_left (cost v) \<le> 0 then turn_change r u v else Some v)"

definition maybe_insert_vertex ::
  "rules \<Rightarrow> path_finder_private \<Rightarrow> vertex \<Rightarrow> path_finder_private" where
  "maybe_insert_vertex r pf v =
     (case handle_turn_change r (unit pf) v of
        None \<Rightarrow> pf
      | Some ins \<Rightarrow>
          (let m = best_vertices pf;
               b = lower_bound m (location v);
               e = upper_bound m (location v)
           in case scan_bucket (equal_range m (location v)) ins of
                (kept, do_insert) \<Rightarrow>
                  (let m' = take b m @ kept @ drop e m
                   in if do_insert
                      then pf\<lparr>queue := queue_push ins (queue pf),
                              best_vertices := emplace m' (location v) ins\<rparr>
                      else pf\<lparr>best_vertices := m'\<rparr>)))"

subsection \<open>The four expansions\<close>

text \<open>\<^verbatim>\<open>attempt_move\<close>.\<close>

definition attempt_move ::
  "rules \<Rightarrow> path_finder_private \<Rightarrow> vertex \<Rightarrow> path_finder_private" where
  "attempt_move r pf source =
     (if loaded source \<noteq> None then pf
      else
        (let probe = fill_probe r source (unit pf)
         in fold (\<lambda>(target, dir) pf.
               if \<not> tile_terrain_known r target then pf
               else if unit_can_move_to_tile r probe target then
                 (let move_cost = min (map_move_cost_unit r probe target) (u_moves_left probe);
                      next = Vertex target (loaded source) True
                               ((cost source)\<lparr>moves_left := moves_left (cost source) - move_cost\<rparr>)
                               (Some source)
                               ((order source)\<lparr>order_order := ORDER_MOVE, order_dir := dir\<rparr>)
                  in maybe_insert_vertex r pf next)
               else pf)
             (adjc_dir_iterate r (location source)) pf))"

text \<open>\<^verbatim>\<open>attempt_full_mp\<close>.\<close>

definition attempt_full_mp ::
  "rules \<Rightarrow> path_finder_private \<Rightarrow> vertex \<Rightarrow> path_finder_private" where
  "attempt_full_mp r pf source =
     maybe_insert_vertex r pf
       (Vertex (location source) (loaded source) (moved source)
          ((cost source)\<lparr>moves_left := 0\<rparr>) (Some source)
          ((order source)\<lparr>order_order := ORDER_FULL_MP\<rparr>))"

text \<open>
  \<^verbatim>\<open>attempt_load\<close>. In the loop the probe is moved to the target for
  \<^verbatim>\<open>transporter_for_unit\<close> and back to \<^verbatim>\<open>source.location\<close> before the action is checked.
\<close>

definition attempt_load ::
  "rules \<Rightarrow> path_finder_private \<Rightarrow> vertex \<Rightarrow> path_finder_private" where
  "attempt_load r pf source =
     (let probe = fill_probe r source (unit pf);
          pf1 =
            (case transporter_for_unit r probe of
               None \<Rightarrow> pf
             | Some transport \<Rightarrow>
                 if is_action_enabled_unit_on_unit r ACTION_TRANSPORT_BOARD probe transport then
                   (let c = child_for_action r source ACTION_TRANSPORT_BOARD probe (u_tile probe)
                    in maybe_insert_vertex r pf
                         (Vertex (location c) (Some transport) (moved c) (cost c) (parent c) (order c)))
                 else pf)
      in fold (\<lambda>target pf.
            (let probe' = probe\<lparr>u_tile := location source\<rparr>
             in case transporter_for_unit r (probe\<lparr>u_tile := target\<rparr>) of
                  None \<Rightarrow> pf
                | Some transport \<Rightarrow>
                    if is_action_enabled_unit_on_unit r ACTION_TRANSPORT_EMBARK probe' transport then
                      (let c = child_for_action r source ACTION_TRANSPORT_EMBARK probe' target
                       in maybe_insert_vertex r pf
                            (Vertex (location c) (Some transport) True
                               ((cost c)\<lparr>moves_left :=
                                   moves_left (cost c) - map_move_cost_unit r probe' target\<rparr>)
                               (parent c) (order c)))
                    else pf))
          (adjc_iterate r (u_tile probe)) pf1)"

text \<open>\<^verbatim>\<open>attempt_unload\<close>.\<close>

definition attempt_unload ::
  "rules \<Rightarrow> path_finder_private \<Rightarrow> vertex \<Rightarrow> path_finder_private" where
  "attempt_unload r pf source =
     (let probe = fill_probe r source (unit pf)
      in case u_transporter probe of
           None \<Rightarrow> pf
         | Some transporter \<Rightarrow>
             (let pf1 =
                    (if is_action_enabled_unit_on_unit r ACTION_TRANSPORT_ALIGHT probe transporter then
                       (let c = child_for_action r source ACTION_TRANSPORT_ALIGHT probe (u_tile probe)
                        in maybe_insert_vertex r pf
                             (Vertex (location c) None (moved c) (cost c) (parent c) (order c)))
                     else pf)
              in fold (\<lambda>target pf.
                    (let pf2 =
                           (if is_action_enabled_unit_on_tile r ACTION_TRANSPORT_DISEMBARK1 probe target then
                              (let c = child_for_action r source ACTION_TRANSPORT_DISEMBARK1 probe target
                               in maybe_insert_vertex r pf
                                    (Vertex (location c) None True
                                       ((cost c)\<lparr>moves_left :=
                                           moves_left (cost c) - map_move_cost_unit r probe target\<rparr>)
                                       (parent c) (order c)))
                            else pf)
                     in if is_action_enabled_unit_on_tile r ACTION_TRANSPORT_DISEMBARK2 probe target then
                          (let c = child_for_action r source ACTION_TRANSPORT_DISEMBARK2 probe target
                           in maybe_insert_vertex r pf2
                                (Vertex (location c) None True
                                   ((cost c)\<lparr>moves_left :=
                                       moves_left (cost c) - map_move_cost_unit r probe target\<rparr>)
                                   (parent c) (order c)))
                        else pf2))
                  (adjc_iterate r (u_tile probe)) pf1))"

subsection \<open>run\_search\<close>

text \<open>
  The check of the popped vertex against \<^verbatim>\<open>best_vertices\<close>: \<open>None\<close> where the loop
  continues (\<^verbatim>\<open>it == best_vertices.end()\<close>), else the vertex \<^verbatim>\<open>it\<close> points to, which
  becomes \<^verbatim>\<open>parent\<close>. \<^verbatim>\<open>std::find_if\<close> returns the end of the range it was given.
\<close>

definition current_best :: "path_finder_private \<Rightarrow> vertex \<Rightarrow> vertex option" where
  "current_best pf v =
     (let m = best_vertices pf;
          it = find_if m (lower_bound m (location v)) (upper_bound m (location v))
                 (\<lambda>pair. vertex_eq (snd pair) v)
      in if it = length m then None else Some (snd (m ! it)))"

text \<open>The four expansions, in the order of the loop body.\<close>

definition expand :: "rules \<Rightarrow> path_finder_private \<Rightarrow> vertex \<Rightarrow> path_finder_private" where
  "expand r pf parent_v =
     attempt_unload r (attempt_load r (attempt_full_mp r (attempt_move r pf parent_v) parent_v)
       parent_v) parent_v"

text \<open>
  One turn of the loop body after the test for arrival: the vertex \<open>v\<close> is popped, looked
  up, and either skipped or expanded.
\<close>

definition process_vertex ::
  "rules \<Rightarrow> path_finder_private \<Rightarrow> vertex \<Rightarrow> path_finder_private" where
  "process_vertex r pf v =
     (let pf1 = pf\<lparr>queue := queue_pop (queue pf)\<rparr>
      in case current_best pf1 v of
           None \<Rightarrow> pf1
         | Some parent_v \<Rightarrow> expand r pf1 parent_v)"

text \<open>
  The \<^verbatim>\<open>while\<close> loop of \<^verbatim>\<open>run_search\<close>. It need not end, so its result is an option:
  \<open>None\<close> when it runs forever.
\<close>

partial_function (option) search_loop ::
  "rules \<Rightarrow> path_finder_private \<Rightarrow> tile \<Rightarrow> (bool \<times> path_finder_private) option" where
  "search_loop r pf stopping_condition =
     (case queue_top (queue pf) of
        None \<Rightarrow> Some (False, pf)
      | Some v \<Rightarrow>
          if location v = stopping_condition then Some (True, pf)
          else search_loop r (process_vertex r pf v) stopping_condition)"

declare search_loop.simps [code]

text \<open>
  \<^verbatim>\<open>run_search\<close>. The first test reads \<^verbatim>\<open>queue.top()\<close> whenever \<^verbatim>\<open>best_vertices\<close> has an
  entry for the destination; on an empty queue that read is undefined, which the model
  reports as \<open>TopOfEmptyQueue\<close>.
\<close>

definition run_search ::
  "rules \<Rightarrow> path_finder_private \<Rightarrow> tile \<Rightarrow> (error + bool \<times> path_finder_private) option" where
  "run_search r pf stopping_condition =
     (let m = best_vertices pf; it = multimap_find m stopping_condition
      in if it \<noteq> length m then
           (case queue_top (queue pf) of
              None \<Rightarrow> Some (Inl TopOfEmptyQueue)
            | Some t \<Rightarrow>
                if \<not> cost_less (cost t) (cost (snd (m ! it))) then Some (Inr (True, pf))
                else map_option Inr (search_loop r pf stopping_condition))
         else map_option Inr (search_loop r pf stopping_condition))"

subsection \<open>The public functions\<close>

text \<open>
  \<^verbatim>\<open>path_finder::unit_changed\<close>. The argument is \<^verbatim>\<open>Q_UNUSED\<close>; the map is cleared, the
  queue is popped until it is empty, and the initial vertex is inserted again.
\<close>

function clear_queue :: "vertex list \<Rightarrow> vertex list" where
  "clear_queue q = (if q = [] then q else clear_queue (queue_pop q))"
  by pat_completeness auto

lemma queue_min_in: "queue_min b vs \<in> set (b # vs)"
  by (induction vs arbitrary: b) auto

lemma queue_top_in: "queue_top q = Some v \<Longrightarrow> v \<in> set q"
  using queue_min_in by (auto simp: queue_top_def split: list.splits)

lemma length_queue_pop: "q \<noteq> [] \<Longrightarrow> length (queue_pop q) < length q"
proof -
  assume "q \<noteq> []"
  then obtain v where t: "queue_top q = Some v"
    by (cases q) (auto simp: queue_top_def)
  then have "v \<in> set q"
    by (rule queue_top_in)
  then have "length (remove1 v q) < length q"
    by (simp add: length_remove1) (cases q; simp)
  with t show ?thesis
    by (simp add: queue_pop_def)
qed

termination clear_queue
  by (relation "measure length") (auto simp: length_queue_pop)

declare clear_queue.simps [simp del]

definition unit_changed ::
  "rules \<Rightarrow> path_finder_private \<Rightarrow> unit_rec \<Rightarrow> path_finder_private" where
  "unit_changed r pf u =
     insert_initial_vertex r (pf\<lparr>best_vertices := [], queue := clear_queue (queue pf)\<rparr>)"

text \<open>
  A step of the returned path is \<^verbatim>\<open>{location, cost.turns, cost.turns, order}\<close>. The loop
  of \<^verbatim>\<open>find_path\<close> that selects the best vertex of the destination, and the loop that
  follows the parents up to the root.
\<close>

type_synonym step = "tile \<times> int \<times> int \<times> unit_order"

fun select_best :: "vertex option \<Rightarrow> multimap \<Rightarrow> vertex option" where
  "select_best best [] = best"
| "select_best best (p # ps) =
     select_best
       (case best of
          None \<Rightarrow> Some (snd p)
        | Some b \<Rightarrow> if cost_less (cost (snd p)) (cost b) then Some (snd p) else best)
       ps"

fun path_steps :: "vertex \<Rightarrow> step list" where
  "path_steps (Vertex l ld mv c None ord) = []"
| "path_steps (Vertex l ld mv c (Some p) ord) = (l, turns c, turns c, ord) # path_steps p"

text \<open>
  The result of \<^verbatim>\<open>find_path\<close>: the steps of the path, and whether \<^verbatim>\<open>fc_assert_ret_val\<close>
  failed (it logs the failure and returns the empty path).
\<close>

record find_path_result =
  fc_assert_failed :: bool
  steps :: "step list"

definition empty_path :: find_path_result where
  "empty_path = \<lparr>fc_assert_failed = False, steps = []\<rparr>"

definition find_path ::
  "rules \<Rightarrow> path_finder_private \<Rightarrow> tile option
     \<Rightarrow> (error + find_path_result \<times> path_finder_private) option" where
  "find_path r pf destination =
     (case destination of
        None \<Rightarrow> Some (Inr (\<lparr>fc_assert_failed = True, steps = []\<rparr>, pf))
      | Some d \<Rightarrow>
          if u_stay (unit pf) then Some (Inr (empty_path, pf))
          else if u_tile (unit pf) = d then Some (Inr (empty_path, pf))
          else
            (case run_search r pf d of
               None \<Rightarrow> None
             | Some (Inl err) \<Rightarrow> Some (Inl err)
             | Some (Inr (True, pf')) \<Rightarrow>
                 (case select_best None (equal_range (best_vertices pf') d) of
                    None \<Rightarrow> Some (Inl NullBestVertex)
                  | Some best \<Rightarrow>
                      Some (Inr (\<lparr>fc_assert_failed = False, steps = rev (path_steps best)\<rparr>, pf')))
             | Some (Inr (False, pf')) \<Rightarrow> Some (Inr (empty_path, pf'))))"

subsection \<open>The invariant of a bucket\<close>

text \<open>
  The vertices \<^verbatim>\<open>best_vertices\<close> holds for a tile, in the order of iteration.
\<close>

definition bucket :: "multimap \<Rightarrow> tile \<Rightarrow> vertex list" where
  "bucket m k = map snd (equal_range m k)"

text \<open>
  \<open>cost_le_all a b\<close>: the cost \<open>a\<close> is at least as good as \<open>b\<close> in each of the four
  criteria. \<open>frontier_invariant\<close> holds of a bucket in which no two entries at different
  positions are comparable with the cost of one at least as good as the other's in all
  four criteria; \<open>none_strictly_better\<close> asks only that of two comparable entries
  neither is less than the other by \<^verbatim>\<open>cost::operator<\<close>. \<open>sorted_wrt R\<close> holds of a list
  when \<open>R\<close> relates every entry to every later one.
\<close>

definition cost_le_all :: "cost \<Rightarrow> cost \<Rightarrow> bool" where
  "cost_le_all a b =
     (turns a \<le> turns b \<and> moves_left b \<le> moves_left a \<and> health b \<le> health a
      \<and> fuel_left b \<le> fuel_left a)"

definition frontier_invariant :: "vertex list \<Rightarrow> bool" where
  "frontier_invariant b =
     sorted_wrt (\<lambda>x y. \<not> (vertex_comparable x y
                          \<and> (cost_le_all (cost x) (cost y) \<or> cost_le_all (cost y) (cost x)))) b"

definition none_strictly_better :: "vertex list \<Rightarrow> bool" where
  "none_strictly_better b =
     sorted_wrt (\<lambda>x y. \<not> (vertex_comparable x y
                          \<and> (cost_less (cost x) (cost y) \<or> cost_less (cost y) (cost x)))) b"

text \<open>
  The keys of a multimap cut into the entries before the bucket of \<open>k\<close>, the bucket, and
  the entries after it.
\<close>

definition keys_split :: "tile \<Rightarrow> multimap \<Rightarrow> multimap \<Rightarrow> multimap \<Rightarrow> bool" where
  "keys_split k pre mid post \<longleftrightarrow>
     (\<forall>p\<in>set pre. fst p < k) \<and> (\<forall>p\<in>set mid. fst p = k) \<and> (\<forall>p\<in>set post. k < fst p)"

subsection \<open>The edges of an expansion\<close>



subsection \<open>The states of a path finder\<close>

text \<open>
  \<open>reachable r u pf\<close>: the state \<open>pf\<close> is that of a path finder constructed for the unit
  \<open>u\<close>, after any number of calls of \<^verbatim>\<open>unit_changed\<close> and of calls of \<^verbatim>\<open>find_path\<close>
  that returned.
\<close>

inductive reachable :: "rules \<Rightarrow> unit_rec \<Rightarrow> path_finder_private \<Rightarrow> bool" for r u where
  constructed: "reachable r u (path_finder_new r u)"
| notified: "reachable r u pf \<Longrightarrow> reachable r u (unit_changed r pf u')"
| searched: "reachable r u pf \<Longrightarrow> find_path r pf dest = Some (Inr (res, pf'))
               \<Longrightarrow> reachable r u pf'"

text \<open>
  What holds of every such state: the map is sorted by tile; every vertex is stored under
  its location, and a vertex without a parent under the tile of the unit; every queued
  vertex has a vertex stored for its location. \<open>search_post\<close> is what the loop of
  \<^verbatim>\<open>run_search\<close> returns from such a state.
\<close>

definition pf_inv :: "path_finder_private \<Rightarrow> bool" where
  "pf_inv pf \<longleftrightarrow>
     sorted (map fst (best_vertices pf))
     \<and> (\<forall>p\<in>set (best_vertices pf).
           location (snd p) = fst p \<and> (parent (snd p) = None \<longrightarrow> fst p = u_tile (unit pf)))
     \<and> (\<forall>v\<in>set (queue pf). location v \<in> fst ` set (best_vertices pf))"


text \<open>
  \<open>frontier_ok\<close>: every bucket satisfies \<open>frontier_invariant\<close>.
\<close>

definition frontier_ok :: "path_finder_private \<Rightarrow> bool" where
  "frontier_ok pf \<longleftrightarrow> (\<forall>k. frontier_invariant (bucket (best_vertices pf) k))"

definition state_ok :: "path_finder_private \<Rightarrow> bool" where
  "state_ok pf \<longleftrightarrow> pf_inv pf \<and> frontier_ok pf"

section \<open>Concrete units and rules\<close>

text \<open>Inputs at which the functions above are evaluated below.\<close>

definition example_order :: unit_order where
  "example_order =
     \<lparr>order_order = ORDER_MOVE, order_action = ACTION_TRANSPORT_BOARD, order_target = 0,
      order_dir = DIR8_ORIGIN\<rparr>"

text \<open>A unit that disembarks: the stale vertex.\<close>

definition stale_rules :: rules where
  "stale_rules =
     \<lparr>unit_move_rate = (\<lambda>u. 3),
      utype_fuel = (\<lambda>t. 0),
      is_unit_being_refueled = (\<lambda>u. False),
      unit_restore_hitpoints = (\<lambda>u. u),
      adjc_dir_iterate =
        (\<lambda>t. if t = 0 then [(1, DIR8 0)] else if t = 1 then [(2, DIR8 0)] else []),
      adjc_iterate = (\<lambda>t. if t = 0 then [1, 2] else []),
      tile_terrain_known = (\<lambda>t. True),
      unit_can_move_to_tile = (\<lambda>u t. True),
      map_move_cost_unit = (\<lambda>u t. if t = 1 then 2 else 1),
      unit_pays_mp_for_action = (\<lambda>a u. 3),
      transporter_for_unit = (\<lambda>u. None),
      is_action_enabled_unit_on_unit = (\<lambda>a u t. False),
      is_action_enabled_unit_on_tile = (\<lambda>a u t. a = ACTION_TRANSPORT_DISEMBARK1),
      unit_id = (\<lambda>u. int u),
      tile_index = (\<lambda>t. int t),
      zero_order = example_order\<rparr>"

definition stale_unit :: unit_rec where
  "stale_unit =
     \<lparr>u_tile = 0, u_transporter = Some 7, u_transported_by = 7, u_moved = False, u_fuel = 0,
      u_hp = 10, u_moves_left = 3, u_stay = False, u_utype = 0\<rparr>"

definition stale_root :: vertex where
  "stale_root = initial_vertex stale_rules stale_unit"

definition stale_better :: vertex where
  "stale_better =
     Vertex 0 None True
       \<lparr>turns = 0, cost_second = 0, moves_left = 2, health = 10, fuel_left = 0\<rparr>
       (Some stale_root)
       \<lparr>order_order = ORDER_PERFORM_ACTION, order_action = ACTION_TRANSPORT_DISEMBARK1,
        order_target = 2, order_dir = DIR8_ORIGIN\<rparr>"

definition stale_vertex :: vertex where
  "stale_vertex =
     Vertex 0 None True
       \<lparr>turns = 0, cost_second = 0, moves_left = 1, health = 10, fuel_left = 0\<rparr>
       (Some stale_root)
       \<lparr>order_order = ORDER_PERFORM_ACTION, order_action = ACTION_TRANSPORT_DISEMBARK1,
        order_target = 1, order_dir = DIR8_ORIGIN\<rparr>"

definition stale_other :: vertex where
  "stale_other =
     Vertex 1 None False
       \<lparr>turns = 1, cost_second = 0, moves_left = 3, health = 10, fuel_left = 0\<rparr>
       (Some stale_better)
       \<lparr>order_order = ORDER_MOVE, order_action = ACTION_TRANSPORT_DISEMBARK1,
        order_target = 2, order_dir = DIR8 0\<rparr>"

definition stale_state :: path_finder_private where
  "stale_state =
     process_vertex stale_rules
       (process_vertex stale_rules (path_finder_new stale_rules stale_unit) stale_root)
       stale_better"

text \<open>A unit whose search runs out of vertices.\<close>

definition exhaust_rules :: rules where
  "exhaust_rules =
     \<lparr>unit_move_rate = (\<lambda>u. 1),
      utype_fuel = (\<lambda>t. 0),
      is_unit_being_refueled = (\<lambda>u. False),
      unit_restore_hitpoints = (\<lambda>u. u),
      adjc_dir_iterate =
        (\<lambda>t. if t = 0 then [(1, DIR8 0)] else if t = 1 then [(0, DIR8 1)] else []),
      adjc_iterate = (\<lambda>t. if t = 0 then [1] else if t = 1 then [0] else []),
      tile_terrain_known = (\<lambda>t. True),
      unit_can_move_to_tile = (\<lambda>u t. True),
      map_move_cost_unit = (\<lambda>u t. 1),
      unit_pays_mp_for_action = (\<lambda>a u. 0),
      transporter_for_unit = (\<lambda>u. None),
      is_action_enabled_unit_on_unit = (\<lambda>a u t. False),
      is_action_enabled_unit_on_tile = (\<lambda>a u t. False),
      unit_id = (\<lambda>u. int u),
      tile_index = (\<lambda>t. int t),
      zero_order = example_order\<rparr>"

definition exhaust_unit :: unit_rec where
  "exhaust_unit =
     \<lparr>u_tile = 0, u_transporter = None, u_transported_by = - 1, u_moved = False, u_fuel = 0,
      u_hp = 10, u_moves_left = 1, u_stay = False, u_utype = 0\<rparr>"

definition exhaust_root :: vertex where
  "exhaust_root = initial_vertex exhaust_rules exhaust_unit"

definition exhausted_state :: path_finder_private where
  "exhausted_state =
     \<lparr>unit = exhaust_unit, queue = [],
      best_vertices =
        [(0, exhaust_root),
         (1, Vertex 1 None False
               \<lparr>turns = 1, cost_second = 0, moves_left = 1, health = 10, fuel_left = 0\<rparr>
               (Some exhaust_root) (example_order\<lparr>order_dir := DIR8 0\<rparr>))]\<rparr>"

text \<open>A unit type with fuel, and vertices at the end of a turn.\<close>

definition fuel_rules :: rules where
  "fuel_rules =
     \<lparr>unit_move_rate = (\<lambda>u. 2),
      utype_fuel = (\<lambda>t. 5),
      is_unit_being_refueled = (\<lambda>u. u_tile u = 1),
      unit_restore_hitpoints = (\<lambda>u. if u_tile u = 3 then u\<lparr>u_hp := 0\<rparr> else u),
      adjc_dir_iterate = (\<lambda>t. []),
      adjc_iterate = (\<lambda>t. []),
      tile_terrain_known = (\<lambda>t. True),
      unit_can_move_to_tile = (\<lambda>u t. True),
      map_move_cost_unit = (\<lambda>u t. 1),
      unit_pays_mp_for_action = (\<lambda>a u. 0),
      transporter_for_unit = (\<lambda>u. None),
      is_action_enabled_unit_on_unit = (\<lambda>a u t. False),
      is_action_enabled_unit_on_tile = (\<lambda>a u t. False),
      unit_id = (\<lambda>u. int u),
      tile_index = (\<lambda>t. int t),
      zero_order = example_order\<rparr>"

definition fuel_unit :: unit_rec where
  "fuel_unit =
     \<lparr>u_tile = 0, u_transporter = None, u_transported_by = - 1, u_moved = False, u_fuel = 3,
      u_hp = 10, u_moves_left = 2, u_stay = False, u_utype = 0\<rparr>"

definition fuel_state :: path_finder_private where
  "fuel_state = path_finder_new fuel_rules fuel_unit"

definition fuel_vertex :: "tile \<Rightarrow> int \<Rightarrow> vertex" where
  "fuel_vertex t f =
     Vertex t None True
       \<lparr>turns = 0, cost_second = 0, moves_left = 0, health = 10, fuel_left = f\<rparr>
       (Some (initial_vertex fuel_rules fuel_unit)) example_order"

text \<open>The disembarking unit: states in which a vertex is evicted and one is discarded.\<close>

definition frontier_state :: path_finder_private where
  "frontier_state =
     maybe_insert_vertex stale_rules (path_finder_new stale_rules stale_unit) stale_vertex"

definition frontier_state' :: path_finder_private where
  "frontier_state' = maybe_insert_vertex stale_rules frontier_state stale_better"





section \<open>Properties\<close>

subsection \<open>Costs\<close>

lemma cost_less_lex:
  "cost_less a b \<longleftrightarrow>
     turns a < turns b
     \<or> (turns a = turns b \<and> (moves_left a > moves_left b
        \<or> (moves_left a = moves_left b \<and> (health a > health b
           \<or> (health a = health b \<and> fuel_left a > fuel_left b)))))"
  by (auto simp: cost_less_def tie4_less_def)

lemma cost_eq_fields:
  "cost_eq a b \<longleftrightarrow>
     turns a = turns b \<and> moves_left a = moves_left b \<and> health a = health b
     \<and> fuel_left a = fuel_left b"
  by (auto simp: cost_eq_def)

text \<open>
  C7. \<^verbatim>\<open>cost::operator<\<close> compares lexicographically: fewer turns first, then more moves
  left, then more health, then more fuel. It is irreflexive and transitive, and of two
  costs that \<^verbatim>\<open>operator==\<close> tells apart one is less than the other.
\<close>

theorem cost_less_strict_total_order:
  "(cost_less a b \<longleftrightarrow>
      turns a < turns b
      \<or> (turns a = turns b \<and> (moves_left a > moves_left b
         \<or> (moves_left a = moves_left b \<and> (health a > health b
            \<or> (health a = health b \<and> fuel_left a > fuel_left b))))))
   \<and> \<not> cost_less a a
   \<and> (cost_less a b \<and> cost_less b c \<longrightarrow> cost_less a c)
   \<and> (\<not> cost_eq a b \<longrightarrow> cost_less a b \<or> cost_less b a)"
proof -
  have irrefl: "\<not> cost_less a a"
    by (simp add: cost_less_lex)
  have trans: "cost_less a b \<and> cost_less b c \<longrightarrow> cost_less a c"
    unfolding cost_less_lex by linarith
  have total: "\<not> cost_eq a b \<longrightarrow> cost_less a b \<or> cost_less b a"
    unfolding cost_less_lex cost_eq_fields by linarith
  show ?thesis
    using cost_less_lex [of a b] irrefl trans total by blast
qed

theorem cost_less_strict_total_order_witness:
  "cost_less (cost (fuel_vertex 0 3)) (cost (fuel_vertex 0 2))
   \<and> cost_less (cost (fuel_vertex 0 2)) (cost (fuel_vertex 0 1))
   \<and> cost_less (cost (fuel_vertex 0 3)) (cost (fuel_vertex 0 1))
   \<and> \<not> cost_eq (cost (fuel_vertex 0 3)) (cost (fuel_vertex 0 2))"
  using cost_less_strict_total_order
    [of "cost (fuel_vertex 0 3)" "cost (fuel_vertex 0 2)" "cost (fuel_vertex 0 1)"]
  by (simp add: fuel_vertex_def cost_eq_def cost_less_lex)


subsection \<open>Vertices\<close>

text \<open>
  C2. \<^verbatim>\<open>vertex::operator==\<close> compares the location and the cost only: two vertices that
  differ in \<open>moved\<close>, or in \<open>loaded\<close>, and in nothing else are equal to it.
\<close>

theorem vertex_eq_ignores_loaded_and_moved:
  "vertex_eq (Vertex 0 None False (cost exhaust_root) None example_order)
             (Vertex 0 None True (cost exhaust_root) None example_order)
   \<and> vertex_eq (Vertex 0 None False (cost exhaust_root) None example_order)
               (Vertex 0 (Some 7) False (cost exhaust_root) None example_order)"
  by (simp add: vertex_eq_def cost_eq_def)


subsection \<open>The turn change\<close>

text \<open>
  C5. For a vertex with no moves left: a unit type with fuel is refuelled to its capacity
  where \<^verbatim>\<open>is_unit_being_refueled\<close> holds, else yields no vertex when its fuel is at most
  one, else loses one fuel; and whatever the fuel, no vertex is produced when the hit
  points restored for the turn are not positive. Where no vertex is produced the state is
  returned as it was.
\<close>

theorem turn_change_fuel_and_health:
  assumes "moves_left (cost v) \<le> 0"
  shows
    "(let probe = fill_probe r v (unit pf);
          capacity = utype_fuel r (u_utype (unit pf));
          consumes = (capacity \<noteq> 0);
          refuels = is_unit_being_refueled r probe;
          probe1 = (if consumes then
                       if refuels then probe\<lparr>u_fuel := capacity\<rparr>
                       else probe\<lparr>u_fuel := fuel_left (cost v) - 1\<rparr>
                    else probe);
          hp = u_hp (unit_restore_hitpoints r probe1)
      in (consumes \<and> refuels \<and> 0 < hp \<longrightarrow>
            (\<exists>ins. handle_turn_change r (unit pf) v = Some ins \<and> fuel_left (cost ins) = capacity))
       \<and> (consumes \<and> \<not> refuels \<and> fuel_left (cost v) \<le> 1 \<longrightarrow>
            handle_turn_change r (unit pf) v = None \<and> maybe_insert_vertex r pf v = pf)
       \<and> (consumes \<and> \<not> refuels \<and> 1 < fuel_left (cost v) \<and> 0 < hp \<longrightarrow>
            (\<exists>ins. handle_turn_change r (unit pf) v = Some ins
               \<and> fuel_left (cost ins) = fuel_left (cost v) - 1))
       \<and> (hp \<le> 0 \<longrightarrow>
            handle_turn_change r (unit pf) v = None \<and> maybe_insert_vertex r pf v = pf))"
  using assms
  by (auto simp: handle_turn_change_def turn_change_def maybe_insert_vertex_def fill_probe_def
      Let_def)

theorem turn_change_fuel_and_health_witness:
  "(\<exists>ins. handle_turn_change fuel_rules (unit fuel_state) (fuel_vertex 1 1) = Some ins
       \<and> fuel_left (cost ins) = 5)
   \<and> maybe_insert_vertex fuel_rules fuel_state (fuel_vertex 2 1) = fuel_state
   \<and> (\<exists>ins. handle_turn_change fuel_rules (unit fuel_state) (fuel_vertex 2 3) = Some ins
       \<and> fuel_left (cost ins) = 2)
   \<and> maybe_insert_vertex fuel_rules fuel_state (fuel_vertex 3 3) = fuel_state"
  using turn_change_fuel_and_health [of "fuel_vertex 1 1" fuel_rules fuel_state]
    turn_change_fuel_and_health [of "fuel_vertex 2 1" fuel_rules fuel_state]
    turn_change_fuel_and_health [of "fuel_vertex 2 3" fuel_rules fuel_state]
    turn_change_fuel_and_health [of "fuel_vertex 3 3" fuel_rules fuel_state]
  by (simp add: Let_def fuel_vertex_def fuel_rules_def fuel_state_def fill_probe_def
      path_finder_new_def insert_initial_vertex_def fuel_unit_def)

subsection \<open>The multimap\<close>

lemma takeWhile_all_false: "(\<forall>x\<in>set xs. \<not> P x) \<Longrightarrow> takeWhile P xs = []"
  by (cases xs) auto

lemma bounds_of_split:
  assumes "keys_split k pre mid post"
  shows "lower_bound (pre @ mid @ post) k = length pre"
    and "upper_bound (pre @ mid @ post) k = length pre + length mid"
proof -
  from assms have pre: "\<forall>p\<in>set pre. fst p < k" and mid: "\<forall>p\<in>set mid. fst p = k"
    and post: "\<forall>p\<in>set post. k < fst p"
    by (auto simp: keys_split_def)
  have "takeWhile (\<lambda>p. fst p < k) (mid @ post) = []"
    using mid post by (intro takeWhile_all_false) auto
  with pre show "lower_bound (pre @ mid @ post) k = length pre"
    by (simp add: lower_bound_def takeWhile_append)
  have "takeWhile (\<lambda>p. fst p \<le> k) post = []"
    using post by (intro takeWhile_all_false) auto
  moreover have "\<forall>p\<in>set pre. fst p \<le> k" "\<forall>p\<in>set mid. fst p \<le> k"
    using pre mid by auto
  ultimately show "upper_bound (pre @ mid @ post) k = length pre + length mid"
    by (simp add: upper_bound_def takeWhile_append)
qed

lemma equal_range_of_split:
  "keys_split k pre mid post \<Longrightarrow> equal_range (pre @ mid @ post) k = mid"
  by (simp add: equal_range_def bounds_of_split)

lemma emplace_of_split:
  "keys_split k pre mid post \<Longrightarrow> emplace (pre @ mid @ post) k v = pre @ mid @ (k, v) # post"
  by (simp add: emplace_def bounds_of_split)

lemma equal_range_of_split_snoc:
  assumes "keys_split k pre mid post"
  shows "equal_range (pre @ mid @ (k, v) # post) k = mid @ [(k, v)]"
proof -
  from assms have "keys_split k pre (mid @ [(k, v)]) post"
    by (simp add: keys_split_def)
  then have "equal_range (pre @ (mid @ [(k, v)]) @ post) k = mid @ [(k, v)]"
    by (rule equal_range_of_split)
  then show ?thesis
    by simp
qed

lemma sorted_keys_split:
  "sorted (map fst m) \<Longrightarrow> \<exists>pre mid post. m = pre @ mid @ post \<and> keys_split k pre mid post"
proof (induction m)
  case Nil
  then show ?case by (simp add: keys_split_def)
next
  case (Cons p m)
  then obtain pre mid post where m: "m = pre @ mid @ post" and ks: "keys_split k pre mid post"
    by auto
  from Cons.prems have le: "\<forall>q\<in>set m. fst p \<le> fst q"
    by auto
  consider "fst p < k" | "fst p = k" | "k < fst p"
    by (rule linorder_cases)
  then show ?case
  proof cases
    case 1
    have "p # m = (p # pre) @ mid @ post"
      using m by simp
    moreover have "keys_split k (p # pre) mid post"
      using ks 1 by (simp add: keys_split_def)
    ultimately show ?thesis by blast
  next
    case 2
    have "pre = []"
    proof (cases pre)
      case (Cons q qs)
      with m le ks 2 show ?thesis by (auto simp: keys_split_def)
    qed simp
    with m have "p # m = [] @ (p # mid) @ post"
      by simp
    moreover have "keys_split k [] (p # mid) post"
      using ks 2 by (simp add: keys_split_def)
    ultimately show ?thesis by blast
  next
    case 3
    have "pre = []"
    proof (cases pre)
      case (Cons q qs)
      with m le ks 3 show ?thesis by (auto simp: keys_split_def)
    qed simp
    moreover have "mid = []"
    proof (cases mid)
      case (Cons q qs)
      with m le ks 3 show ?thesis by (auto simp: keys_split_def)
    qed simp
    ultimately have "p # m = [] @ [] @ (p # post)"
      using m by simp
    moreover have "keys_split k [] [] (p # post)"
      using ks 3 by (simp add: keys_split_def)
    ultimately show ?thesis by blast
  qed
qed

lemma sorted_same_key: "\<forall>p\<in>set mid. fst p = (k::nat) \<Longrightarrow> sorted (map fst mid)"
  by (induction mid) auto

lemma sorted_of_split:
  assumes "keys_split k pre mid post" and "sorted (map fst pre)" and "sorted (map fst post)"
  shows "sorted (map fst (pre @ mid @ post))"
proof -
  from assms(1) have pre: "\<forall>p\<in>set pre. fst p < k" and mid: "\<forall>p\<in>set mid. fst p = k"
    and post: "\<forall>p\<in>set post. k < fst p"
    by (auto simp: keys_split_def)
  have "sorted (map fst mid)"
    using mid by (rule sorted_same_key)
  moreover have "\<forall>x\<in>set mid. \<forall>y\<in>set post. fst x \<le> fst y"
    using mid post by fastforce
  ultimately have "sorted (map fst (mid @ post))"
    using assms(3) by (auto simp: sorted_append)
  moreover have "\<forall>x\<in>set pre. \<forall>y\<in>set (mid @ post). fst x \<le> fst y"
    using pre mid post by fastforce
  ultimately show ?thesis
    using assms(2) by (auto simp: sorted_append)
qed

subsection \<open>The scan of a bucket\<close>

lemma scan_bucket_subset: "scan_bucket es ins = (kept, flag) \<Longrightarrow> set kept \<subseteq> set es"
  by (induction es arbitrary: kept flag) (auto split: if_splits prod.splits)

lemma scan_bucket_sorted_wrt:
  "scan_bucket es ins = (kept, flag) \<Longrightarrow> sorted_wrt R (map snd es)
     \<Longrightarrow> sorted_wrt R (map snd kept)"
proof (induction es arbitrary: kept flag)
  case Nil
  then show ?case by simp
next
  case (Cons e es)
  show ?case
  proof (cases "vertex_comparable (snd e) ins")
    case True
    with Cons show ?thesis by (auto split: if_splits)
  next
    case False
    obtain es' d where s: "scan_bucket es ins = (es', d)"
      by (cases "scan_bucket es ins")
    with False Cons.prems have k: "kept = e # es'"
      by simp
    from s have "set es' \<subseteq> set es"
      by (rule scan_bucket_subset)
    moreover from s Cons have "sorted_wrt R (map snd es')"
      by simp
    ultimately show ?thesis
      using Cons.prems(2) k by auto
  qed
qed

lemma scan_bucket_inserted:
  "scan_bucket es ins = (kept, True) \<Longrightarrow>
     kept = filter (\<lambda>e. \<not> vertex_comparable (snd e) ins) es
     \<and> (\<forall>e\<in>set es. vertex_comparable (snd e) ins \<longrightarrow> cost_less (cost ins) (cost (snd e)))"
  by (induction es arbitrary: kept) (auto split: if_splits prod.splits)

lemma scan_bucket_discarded:
  "scan_bucket es ins = (kept, False) \<Longrightarrow>
     \<exists>e\<in>set kept. vertex_comparable (snd e) ins \<and> \<not> cost_less (cost ins) (cost (snd e))"
  by (induction es arbitrary: kept) (auto split: if_splits prod.splits)

lemma scan_bucket_not_better:
  "e \<in> set es \<Longrightarrow> vertex_comparable (snd e) ins \<Longrightarrow> \<not> cost_less (cost ins) (cost (snd e))
     \<Longrightarrow> \<not> snd (scan_bucket es ins)"
  by (induction es) (auto split: if_splits prod.splits)

lemma scan_bucket_nothing_worse:
  "\<forall>e\<in>set es. \<not> (vertex_comparable (snd e) ins \<and> cost_less (cost ins) (cost (snd e)))
     \<Longrightarrow> fst (scan_bucket es ins) = es"
  by (induction es) (auto split: if_splits prod.splits)

subsection \<open>Admission to a sorted map\<close>

lemma maybe_insert_vertex_split:
  assumes m: "best_vertices pf = pre @ mid @ post"
    and ks: "keys_split (location v) pre mid post"
    and h: "handle_turn_change r (unit pf) v = Some ins"
    and s: "scan_bucket mid ins = (kept, flag)"
  shows "maybe_insert_vertex r pf v =
           (if flag
            then pf\<lparr>queue := queue pf @ [ins],
                    best_vertices := pre @ kept @ (location v, ins) # post\<rparr>
            else pf\<lparr>best_vertices := pre @ kept @ post\<rparr>)"
proof -
  have er: "equal_range (best_vertices pf) (location v) = mid"
    using m ks by (simp add: equal_range_of_split)
  have lb: "take (lower_bound (best_vertices pf) (location v)) (best_vertices pf) = pre"
    using m ks by (simp add: bounds_of_split)
  have ub: "drop (upper_bound (best_vertices pf) (location v)) (best_vertices pf) = post"
    using m ks by (simp add: bounds_of_split)
  have "set kept \<subseteq> set mid"
    using s by (rule scan_bucket_subset)
  with ks have ks': "keys_split (location v) pre kept post"
    by (auto simp: keys_split_def)
  have em: "emplace (pre @ kept @ post) (location v) ins = pre @ kept @ (location v, ins) # post"
    using ks' by (rule emplace_of_split)
  show ?thesis
    by (simp add: maybe_insert_vertex_def h er lb ub s Let_def em queue_push_def)
qed

lemma dominance_chain:
  assumes "vertex_comparable e2 ins" and "\<not> cost_less (cost ins) (cost e2)"
    and "vertex_comparable e ins" and "cost_less (cost ins) (cost e)"
  shows "vertex_comparable e2 e \<and> cost_less (cost e2) (cost e)"
proof -
  from assms(1,3) have triple: "(location e2, loaded e2, moved e2) = (location e, loaded e, moved e)"
    by (simp add: vertex_comparable_def)
  from assms(1,2) have a: "turns (cost e2) \<le> turns (cost ins)"
    "moves_left (cost ins) \<le> moves_left (cost e2)" "health (cost ins) \<le> health (cost e2)"
    "fuel_left (cost ins) \<le> fuel_left (cost e2)"
    unfolding vertex_comparable_def cost_comparable_def cost_less_lex Let_def by linarith+
  from assms(3,4) have b: "turns (cost ins) \<le> turns (cost e)"
    "moves_left (cost e) \<le> moves_left (cost ins)" "health (cost e) \<le> health (cost ins)"
    "fuel_left (cost e) \<le> fuel_left (cost ins)"
    unfolding vertex_comparable_def cost_comparable_def cost_less_lex Let_def by linarith+
  from assms(4) have c: "cost_less (cost e2) (cost e)"
    using a b unfolding cost_less_lex by linarith
  have "cost_comparable (cost e2) (cost e)"
    using a b unfolding cost_comparable_def Let_def by linarith
  with triple c show ?thesis
    by (simp add: vertex_comparable_def)
qed

lemma sorted_wrt_sym_pair:
  assumes "sorted_wrt R xs" and "x \<in> set xs" and "y \<in> set xs" and "x \<noteq> y"
    and "\<And>a b. R a b \<Longrightarrow> R b a"
  shows "R x y"
  using assms by (induction xs) auto

lemma vertex_comparable_le_all:
  "vertex_comparable x y \<Longrightarrow> cost_le_all (cost x) (cost y) \<or> cost_le_all (cost y) (cost x)"
  unfolding vertex_comparable_def cost_comparable_def cost_le_all_def Let_def by linarith

lemma frontier_invariant_iff:
  "frontier_invariant b \<longleftrightarrow> sorted_wrt (\<lambda>x y. \<not> vertex_comparable x y) b"
proof -
  have "(\<lambda>x y. \<not> (vertex_comparable x y
            \<and> (cost_le_all (cost x) (cost y) \<or> cost_le_all (cost y) (cost x))))
        = (\<lambda>x y. \<not> vertex_comparable x y)"
    using vertex_comparable_le_all by blast
  then show ?thesis
    by (simp add: frontier_invariant_def)
qed

lemma vertex_comparable_sym: "vertex_comparable x y \<Longrightarrow> vertex_comparable y x"
  by (auto simp: vertex_comparable_def cost_comparable_def Let_def)

lemma bucket_after_insert:
  assumes srt: "sorted (map fst (best_vertices pf))"
    and h: "handle_turn_change r (unit pf) v = Some ins"
  obtains mid kept flag where
    "bucket (best_vertices pf) (location v) = map snd mid"
    "scan_bucket mid ins = (kept, flag)"
    "bucket (best_vertices (maybe_insert_vertex r pf v)) (location v)
       = map snd kept @ (if flag then [ins] else [])"
    "queue (maybe_insert_vertex r pf v) = queue pf @ (if flag then [ins] else [])"
    "kept = mid \<and> \<not> flag \<Longrightarrow> maybe_insert_vertex r pf v = pf"
    "sorted (map fst (best_vertices (maybe_insert_vertex r pf v)))"
proof -
  from srt obtain pre mid post where m: "best_vertices pf = pre @ mid @ post"
    and ks: "keys_split (location v) pre mid post"
    using sorted_keys_split by blast
  obtain kept flag where s: "scan_bucket mid ins = (kept, flag)"
    by (cases "scan_bucket mid ins")
  note eq = maybe_insert_vertex_split [OF m ks h s]
  have "set kept \<subseteq> set mid"
    using s by (rule scan_bucket_subset)
  with ks have ks1: "keys_split (location v) pre kept post"
    and ks2: "keys_split (location v) pre (kept @ [(location v, ins)]) post"
    by (auto simp: keys_split_def)
  from srt m have sp: "sorted (map fst pre)" "sorted (map fst post)"
    by (simp_all add: sorted_append)
  have 1: "bucket (best_vertices pf) (location v) = map snd mid"
    using m ks by (simp add: bucket_def equal_range_of_split)
  have 3: "bucket (best_vertices (maybe_insert_vertex r pf v)) (location v)
             = map snd kept @ (if flag then [ins] else [])"
    using ks1 by (simp add: eq bucket_def equal_range_of_split equal_range_of_split_snoc)
  have 4: "queue (maybe_insert_vertex r pf v) = queue pf @ (if flag then [ins] else [])"
    by (simp add: eq)
  have 5: "kept = mid \<and> \<not> flag \<Longrightarrow> maybe_insert_vertex r pf v = pf"
    using m by (simp add: eq)
  have 6: "sorted (map fst (best_vertices (maybe_insert_vertex r pf v)))"
    using sorted_of_split [OF ks1 sp] sorted_of_split [OF ks2 sp] by (auto simp: eq)
  from 1 s 3 4 5 6 show thesis
    by (rule that)
qed

text \<open>
  C4. \<^verbatim>\<open>maybe_insert_vertex\<close> on a map sorted by tile, for a vertex \<open>ins\<close> that came
  through the turn change. A bucket without two comparable entries stays so. In a bucket
  where no entry is strictly better than a comparable one, that stays so, every entry
  comparable with \<open>ins\<close> and strictly worse is gone afterwards, and where an entry is
  comparable with \<open>ins\<close> and \<open>ins\<close> is not strictly better the state is returned as it
  was. In any bucket such an entry has \<open>ins\<close> discarded (nothing is pushed, no vertex is
  added); without one, \<open>ins\<close> is pushed and added after the entries not comparable
  with it.
\<close>

theorem maybe_insert_vertex_keeps_frontier_invariant:
  assumes srt: "sorted (map fst (best_vertices pf))"
    and h: "handle_turn_change r (unit pf) v = Some ins"
  shows
    "(let old = bucket (best_vertices pf) (location v);
          pf' = maybe_insert_vertex r pf v;
          new = bucket (best_vertices pf') (location v)
      in (frontier_invariant old \<longrightarrow> frontier_invariant new)
       \<and> (none_strictly_better old \<longrightarrow>
            none_strictly_better new
            \<and> (\<forall>e\<in>set old. vertex_comparable e ins \<and> cost_less (cost ins) (cost e)
                  \<longrightarrow> e \<notin> set new)
            \<and> ((\<exists>e\<in>set old. vertex_comparable e ins \<and> \<not> cost_less (cost ins) (cost e))
                  \<longrightarrow> pf' = pf))
       \<and> ((\<exists>e\<in>set old. vertex_comparable e ins \<and> \<not> cost_less (cost ins) (cost e))
            \<longrightarrow> queue pf' = queue pf \<and> set new \<subseteq> set old)
       \<and> ((\<forall>e\<in>set old. vertex_comparable e ins \<longrightarrow> cost_less (cost ins) (cost e))
            \<longrightarrow> queue pf' = queue pf @ [ins]
                \<and> new = filter (\<lambda>e. \<not> vertex_comparable e ins) old @ [ins]))"
proof -
  define old where "old = bucket (best_vertices pf) (location v)"
  define pf' where "pf' = maybe_insert_vertex r pf v"
  define new where "new = bucket (best_vertices pf') (location v)"
  obtain mid kept flag where old: "old = map snd mid"
    and s: "scan_bucket mid ins = (kept, flag)"
    and new: "new = map snd kept @ (if flag then [ins] else [])"
    and q: "queue pf' = queue pf @ (if flag then [ins] else [])"
    and same: "kept = mid \<and> \<not> flag \<Longrightarrow> pf' = pf"
    unfolding old_def new_def pf'_def using bucket_after_insert [OF srt h] by metis
  have sub: "set kept \<subseteq> set mid"
    using s by (rule scan_bucket_subset)
  have ins: "flag \<Longrightarrow> \<forall>x\<in>set (map snd kept). \<not> vertex_comparable x ins"
    using s scan_bucket_inserted [of mid ins kept] by auto
  have keep: "sorted_wrt R old \<Longrightarrow> (\<And>x. \<not> vertex_comparable x ins \<Longrightarrow> R x ins)
                \<Longrightarrow> sorted_wrt R new" for R
    using scan_bucket_sorted_wrt [OF s, of R] ins
    by (auto simp: old new sorted_wrt_append)
  have inv: "frontier_invariant old \<longrightarrow> frontier_invariant new"
    unfolding frontier_invariant_iff using keep by blast
  have weak: "none_strictly_better old \<longrightarrow> none_strictly_better new"
    unfolding none_strictly_better_def using keep by blast
  have clash: False
    if nsb: "none_strictly_better old"
      and e2: "e2 \<in> set old" "vertex_comparable e2 ins" "\<not> cost_less (cost ins) (cost e2)"
      and e: "e \<in> set old" "vertex_comparable e ins" "cost_less (cost ins) (cost e)"
    for e2 e
  proof -
    from e2 e have dc: "vertex_comparable e2 e \<and> cost_less (cost e2) (cost e)"
      by (intro dominance_chain)
    from e2(3) e(3) have "e2 \<noteq> e"
      by auto
    with nsb e2(1) e(1)
    have "\<not> (vertex_comparable e2 e \<and> (cost_less (cost e2) (cost e) \<or> cost_less (cost e) (cost e2)))"
      unfolding none_strictly_better_def
      by (rule sorted_wrt_sym_pair) (auto dest: vertex_comparable_sym)
    with dc show False
      by simp
  qed
  have evict: "none_strictly_better old \<longrightarrow>
      (\<forall>e\<in>set old. vertex_comparable e ins \<and> cost_less (cost ins) (cost e) \<longrightarrow> e \<notin> set new)"
  proof (intro impI ballI)
    fix e
    assume nsb: "none_strictly_better old" and e: "e \<in> set old"
      and c: "vertex_comparable e ins \<and> cost_less (cost ins) (cost e)"
    have flag
    proof (rule ccontr)
      assume "\<not> flag"
      with s obtain e2 where "e2 \<in> set kept" "vertex_comparable (snd e2) ins"
        "\<not> cost_less (cost ins) (cost (snd e2))"
        using scan_bucket_discarded [of mid ins kept] by auto
      with sub have "snd e2 \<in> set old" "vertex_comparable (snd e2) ins"
        "\<not> cost_less (cost ins) (cost (snd e2))"
        by (auto simp: old)
      with nsb e c show False
        using clash by blast
    qed
    with ins c have "e \<notin> set (map snd kept)"
      by blast
    moreover from c have "e \<noteq> ins"
      by (auto simp: cost_less_lex)
    ultimately show "e \<notin> set new"
      using \<open>flag\<close> by (simp add: new)
  qed
  have notflag: "\<not> flag"
    if "\<exists>e\<in>set old. vertex_comparable e ins \<and> \<not> cost_less (cost ins) (cost e)"
    using that scan_bucket_not_better [of _ mid ins] s by (auto simp: old)
  have unchanged: "none_strictly_better old \<longrightarrow>
      ((\<exists>e\<in>set old. vertex_comparable e ins \<and> \<not> cost_less (cost ins) (cost e)) \<longrightarrow> pf' = pf)"
  proof (intro impI)
    assume nsb: "none_strictly_better old"
      and ex: "\<exists>e\<in>set old. vertex_comparable e ins \<and> \<not> cost_less (cost ins) (cost e)"
    then have "\<forall>e\<in>set mid. \<not> (vertex_comparable (snd e) ins \<and> cost_less (cost ins) (cost (snd e)))"
      using clash by (fastforce simp: old)
    then have "fst (scan_bucket mid ins) = mid"
      by (rule scan_bucket_nothing_worse)
    with s have "kept = mid"
      by simp
    with notflag [OF ex] show "pf' = pf"
      using same by simp
  qed
  have discard: "(\<exists>e\<in>set old. vertex_comparable e ins \<and> \<not> cost_less (cost ins) (cost e))
      \<longrightarrow> queue pf' = queue pf \<and> set new \<subseteq> set old"
    using notflag sub by (auto simp: q new old)
  have admit: "(\<forall>e\<in>set old. vertex_comparable e ins \<longrightarrow> cost_less (cost ins) (cost e))
      \<longrightarrow> queue pf' = queue pf @ [ins]
          \<and> new = filter (\<lambda>e. \<not> vertex_comparable e ins) old @ [ins]"
  proof
    assume all: "\<forall>e\<in>set old. vertex_comparable e ins \<longrightarrow> cost_less (cost ins) (cost e)"
    have flag
    proof (rule ccontr)
      assume "\<not> flag"
      with s obtain e2 where "e2 \<in> set kept" "vertex_comparable (snd e2) ins"
        "\<not> cost_less (cost ins) (cost (snd e2))"
        using scan_bucket_discarded [of mid ins kept] by auto
      with sub all show False
        by (auto simp: old)
    qed
    with s have "kept = filter (\<lambda>e. \<not> vertex_comparable (snd e) ins) mid"
      using scan_bucket_inserted [of mid ins kept] by simp
    then have "map snd kept = filter (\<lambda>e. \<not> vertex_comparable e ins) old"
      by (simp add: old filter_map comp_def)
    with \<open>flag\<close> show "queue pf' = queue pf @ [ins]
        \<and> new = filter (\<lambda>e. \<not> vertex_comparable e ins) old @ [ins]"
      by (simp add: q new)
  qed
  from inv weak evict unchanged discard admit show ?thesis
    unfolding Let_def old_def [symmetric] pf'_def [symmetric] new_def [symmetric] by blast
qed

theorem maybe_insert_vertex_keeps_frontier_invariant_witness:
  "sorted (map fst (best_vertices frontier_state))
   \<and> handle_turn_change stale_rules (unit frontier_state) stale_better = Some stale_better
   \<and> frontier_invariant (bucket (best_vertices frontier_state) (location stale_better))
   \<and> none_strictly_better (bucket (best_vertices frontier_state) (location stale_better))
   \<and> stale_vertex \<in> set (bucket (best_vertices frontier_state) (location stale_better))
   \<and> vertex_comparable stale_vertex stale_better
   \<and> cost_less (cost stale_better) (cost stale_vertex)
   \<and> frontier_invariant
        (bucket (best_vertices (maybe_insert_vertex stale_rules frontier_state stale_better))
           (location stale_better))
   \<and> stale_vertex \<notin> set
        (bucket (best_vertices (maybe_insert_vertex stale_rules frontier_state stale_better))
           (location stale_better))
   \<and> sorted (map fst (best_vertices frontier_state'))
   \<and> handle_turn_change stale_rules (unit frontier_state') stale_vertex = Some stale_vertex
   \<and> none_strictly_better (bucket (best_vertices frontier_state') (location stale_vertex))
   \<and> stale_better \<in> set (bucket (best_vertices frontier_state') (location stale_vertex))
   \<and> vertex_comparable stale_better stale_vertex
   \<and> \<not> cost_less (cost stale_vertex) (cost stale_better)
   \<and> maybe_insert_vertex stale_rules frontier_state' stale_vertex = frontier_state'"
proof -
  have a1: "sorted (map fst (best_vertices frontier_state))"
    by code_simp
  have a2: "handle_turn_change stale_rules (unit frontier_state) stale_better = Some stale_better"
    by code_simp
  have a3: "frontier_invariant (bucket (best_vertices frontier_state) (location stale_better))"
    by code_simp
  have a4: "none_strictly_better (bucket (best_vertices frontier_state) (location stale_better))"
    by code_simp
  have a5: "stale_vertex \<in> set (bucket (best_vertices frontier_state) (location stale_better))"
    by code_simp
  have a6: "vertex_comparable stale_vertex stale_better"
    by code_simp
  have a7: "cost_less (cost stale_better) (cost stale_vertex)"
    by code_simp
  have b1: "sorted (map fst (best_vertices frontier_state'))"
    by code_simp
  have b2: "handle_turn_change stale_rules (unit frontier_state') stale_vertex = Some stale_vertex"
    by code_simp
  have b4: "none_strictly_better (bucket (best_vertices frontier_state') (location stale_vertex))"
    by code_simp
  have b5: "stale_better \<in> set (bucket (best_vertices frontier_state') (location stale_vertex))"
    by code_simp
  have b6: "vertex_comparable stale_better stale_vertex"
    by code_simp
  have b7: "\<not> cost_less (cost stale_vertex) (cost stale_better)"
    by code_simp
  from maybe_insert_vertex_keeps_frontier_invariant [OF a1 a2] a3 a4 a5 a6 a7
  have a: "frontier_invariant
        (bucket (best_vertices (maybe_insert_vertex stale_rules frontier_state stale_better))
           (location stale_better))
      \<and> stale_vertex \<notin> set
        (bucket (best_vertices (maybe_insert_vertex stale_rules frontier_state stale_better))
           (location stale_better))"
    unfolding Let_def by blast
  from maybe_insert_vertex_keeps_frontier_invariant [OF b1 b2] b4 b5 b6 b7
  have b: "maybe_insert_vertex stale_rules frontier_state' stale_vertex = frontier_state'"
    unfolding Let_def by blast
  from a1 a2 a3 a4 a5 a6 a7 a b1 b2 b4 b5 b6 b7 b show ?thesis
    by blast
qed


subsection \<open>The four expansions\<close>

lemma handle_turn_change_turns:
  "handle_turn_change r u v = Some c \<Longrightarrow>
     parent c = parent v \<and> location c = location v
     \<and> turns (cost c) = (if moves_left (cost v) \<le> 0 then turns (cost v) + 1 else turns (cost v))"
  by (auto simp: handle_turn_change_def turn_change_def Let_def split: if_splits option.splits)






lemma fold_preserves:
  assumes "\<And>x s. P s \<Longrightarrow> P (f x s)" and "P s"
  shows "P (fold f xs s)"
  using assms(2) by (induction xs arbitrary: s) (auto intro: assms(1))

lemma attempt_move_preserves:
  assumes step: "\<And>pf' v. P pf' \<Longrightarrow> parent v = Some source
      \<Longrightarrow> turns (cost v) = turns (cost source) \<Longrightarrow> P (maybe_insert_vertex r pf' v)"
    and init: "P pf"
  shows "P (attempt_move r pf source)"
proof (cases "loaded source")
  case None
  have "P (fold (\<lambda>(target, dir) pf.
               if \<not> tile_terrain_known r target then pf
               else if unit_can_move_to_tile r probe target then
                 maybe_insert_vertex r pf (mk target dir)
               else pf) xs pf)"
    if "\<And>target dir. parent (mk target dir) = Some source
          \<and> turns (cost (mk target dir)) = turns (cost source)" for probe mk xs
    using init by (rule fold_preserves [where P = P, rotated]) (auto simp: that intro!: step)
  from this [of "\<lambda>target dir. Vertex target (loaded source) True
        ((cost source)\<lparr>moves_left := moves_left (cost source)
            - min (map_move_cost_unit r (fill_probe r source (unit pf)) target)
                (u_moves_left (fill_probe r source (unit pf)))\<rparr>)
        (Some source) ((order source)\<lparr>order_order := ORDER_MOVE, order_dir := dir\<rparr>)"]
  show ?thesis
    using None unfolding attempt_move_def Let_def by simp
next
  case (Some t)
  then show ?thesis
    by (simp add: attempt_move_def init)
qed

lemma attempt_full_mp_preserves:
  assumes step: "\<And>pf' v. P pf' \<Longrightarrow> parent v = Some source
      \<Longrightarrow> turns (cost v) = turns (cost source) \<Longrightarrow> P (maybe_insert_vertex r pf' v)"
    and init: "P pf"
  shows "P (attempt_full_mp r pf source)"
  unfolding attempt_full_mp_def using init by (rule step [where pf' = pf]) simp_all

lemma attempt_load_preserves:
  assumes step: "\<And>pf' v. P pf' \<Longrightarrow> parent v = Some source
      \<Longrightarrow> turns (cost v) = turns (cost source) \<Longrightarrow> P (maybe_insert_vertex r pf' v)"
    and init: "P pf"
  shows "P (attempt_load r pf source)"
proof -
  define probe where "probe = fill_probe r source (unit pf)"
  define pf1 where "pf1 =
            (case transporter_for_unit r probe of
               None \<Rightarrow> pf
             | Some transport \<Rightarrow>
                 if is_action_enabled_unit_on_unit r ACTION_TRANSPORT_BOARD probe transport then
                   (let c = child_for_action r source ACTION_TRANSPORT_BOARD probe (u_tile probe)
                    in maybe_insert_vertex r pf
                         (Vertex (location c) (Some transport) (moved c) (cost c) (parent c) (order c)))
                 else pf)"
  have 1: "P pf1"
    unfolding pf1_def Let_def using init
    by (auto simp: child_for_action_def split: option.splits intro!: step)
  have 2: "P
     (fold (\<lambda>target pf.
            (let probe' = probe\<lparr>u_tile := location source\<rparr>
             in case transporter_for_unit r (probe\<lparr>u_tile := target\<rparr>) of
                  None \<Rightarrow> pf
                | Some transport \<Rightarrow>
                    if is_action_enabled_unit_on_unit r ACTION_TRANSPORT_EMBARK probe' transport then
                      (let c = child_for_action r source ACTION_TRANSPORT_EMBARK probe' target
                       in maybe_insert_vertex r pf
                            (Vertex (location c) (Some transport) True
                               ((cost c)\<lparr>moves_left :=
                                   moves_left (cost c) - map_move_cost_unit r probe' target\<rparr>)
                               (parent c) (order c)))
                    else pf))
          (adjc_iterate r (u_tile probe)) pf1)"
    unfolding Let_def using 1
    by (rule fold_preserves [where P = P, rotated])
      (auto simp: child_for_action_def split: option.splits intro!: step)
  then show ?thesis
    unfolding attempt_load_def probe_def pf1_def Let_def .
qed

lemma attempt_unload_preserves:
  assumes step: "\<And>pf' v. P pf' \<Longrightarrow> parent v = Some source
      \<Longrightarrow> turns (cost v) = turns (cost source) \<Longrightarrow> P (maybe_insert_vertex r pf' v)"
    and init: "P pf"
  shows "P (attempt_unload r pf source)"
proof (cases "u_transporter (fill_probe r source (unit pf))")
  case None
  then show ?thesis
    by (simp add: attempt_unload_def init)
next
  case (Some transporter)
  define probe where "probe = fill_probe r source (unit pf)"
  define pf1 where "pf1 =
                    (if is_action_enabled_unit_on_unit r ACTION_TRANSPORT_ALIGHT probe transporter then
                       (let c = child_for_action r source ACTION_TRANSPORT_ALIGHT probe (u_tile probe)
                        in maybe_insert_vertex r pf
                             (Vertex (location c) None (moved c) (cost c) (parent c) (order c)))
                     else pf)"
  have 1: "P pf1"
    unfolding pf1_def Let_def using init
    by (auto simp: child_for_action_def intro!: step)
  have 2: "P (fold (\<lambda>target pf'.
     (let pf2 =
                           (if is_action_enabled_unit_on_tile r ACTION_TRANSPORT_DISEMBARK1 probe target then
                              (let c = child_for_action r source ACTION_TRANSPORT_DISEMBARK1 probe target
                               in maybe_insert_vertex r pf'
                                    (Vertex (location c) None True
                                       ((cost c)\<lparr>moves_left :=
                                           moves_left (cost c) - map_move_cost_unit r probe target\<rparr>)
                                       (parent c) (order c)))
                            else pf')
                     in if is_action_enabled_unit_on_tile r ACTION_TRANSPORT_DISEMBARK2 probe target then
                          (let c = child_for_action r source ACTION_TRANSPORT_DISEMBARK2 probe target
                           in maybe_insert_vertex r pf2
                                (Vertex (location c) None True
                                   ((cost c)\<lparr>moves_left :=
                                       moves_left (cost c) - map_move_cost_unit r probe target\<rparr>)
                                   (parent c) (order c)))
                        else pf2)) (adjc_iterate r (u_tile probe)) pf1)"
    unfolding Let_def using 1
    by (rule fold_preserves [where P = P, rotated])
      (auto simp: child_for_action_def intro!: step)
  then show ?thesis
    using Some unfolding attempt_unload_def probe_def [symmetric] pf1_def Let_def by simp
qed

lemma expand_preserves:
  assumes step: "\<And>pf' v. P pf' \<Longrightarrow> parent v = Some source
      \<Longrightarrow> turns (cost v) = turns (cost source) \<Longrightarrow> P (maybe_insert_vertex r pf' v)"
    and init: "P pf"
  shows "P (expand r pf source)"
proof -
  have 1: "P (attempt_move r pf source)"
    using step init by (rule attempt_move_preserves [where P = P])
  have 2: "P (attempt_full_mp r (attempt_move r pf source) source)"
    using step 1 by (rule attempt_full_mp_preserves [where P = P])
  have 3: "P (attempt_load r (attempt_full_mp r (attempt_move r pf source) source) source)"
    using step 2 by (rule attempt_load_preserves [where P = P])
  show ?thesis
    unfolding expand_def using step 3 by (rule attempt_unload_preserves [where P = P])
qed










subsection \<open>unit\_changed\<close>

lemma clear_queue_empty: "clear_queue q = []"
proof (induction q rule: clear_queue.induct)
  case (1 q)
  show ?case
  proof (cases "q = []")
    case True
    then show ?thesis by (subst clear_queue.simps) simp
  next
    case False
    with 1 have "clear_queue (queue_pop q) = []" by simp
    with False show ?thesis by (subst clear_queue.simps) simp
  qed
qed

lemma emplace_Nil: "emplace [] k v = [(k, v)]"
  by (simp add: emplace_def upper_bound_def)

text \<open>
  C3. \<^verbatim>\<open>unit_changed\<close> drops every vertex and inserts one root vertex again. The root is
  built from the unit copied by the constructor; the unit passed to \<^verbatim>\<open>unit_changed\<close> is
  not read.
\<close>

theorem unit_changed_reseeds_from_stored_unit:
  "unit_changed r pf u =
     \<lparr>unit = unit pf, queue = [initial_vertex r (unit pf)],
      best_vertices = [(u_tile (unit pf), initial_vertex r (unit pf))]\<rparr>"
proof -
  have "location (initial_vertex r (unit pf)) = u_tile (unit pf)"
    by (simp add: initial_vertex_def)
  then show ?thesis
    by (cases pf) (simp add: unit_changed_def insert_initial_vertex_def clear_queue_empty
        queue_push_def emplace_Nil Let_def)
qed

text \<open>
  The root after \<^verbatim>\<open>unit_changed\<close> is not the initial vertex of the unit it was passed.
\<close>

theorem unit_changed_ignores_notified_unit:
  "best_vertices (unit_changed exhaust_rules (path_finder_new exhaust_rules exhaust_unit)
                    (exhaust_unit\<lparr>u_tile := 1, u_hp := 4\<rparr>))
     \<noteq> [(1, initial_vertex exhaust_rules (exhaust_unit\<lparr>u_tile := 1, u_hp := 4\<rparr>))]
   \<and> queue (unit_changed exhaust_rules (path_finder_new exhaust_rules exhaust_unit)
               (exhaust_unit\<lparr>u_tile := 1, u_hp := 4\<rparr>))
     \<noteq> [initial_vertex exhaust_rules (exhaust_unit\<lparr>u_tile := 1, u_hp := 4\<rparr>)]"
  by code_simp

subsection \<open>The state of a search\<close>

lemma pf_inv_new: "pf_inv (path_finder_new r u)"
  by (simp add: pf_inv_def path_finder_new_def insert_initial_vertex_def Let_def emplace_Nil
      queue_push_def initial_vertex_def)

lemma pf_inv_maybe_insert:
  assumes inv: "pf_inv pf" and p: "parent v = Some source"
  shows "pf_inv (maybe_insert_vertex r pf v)"
proof (cases "handle_turn_change r (unit pf) v")
  case None
  then show ?thesis
    using inv by (simp add: maybe_insert_vertex_def)
next
  case (Some ins)
  from inv have srt: "sorted (map fst (best_vertices pf))"
    and bv: "\<forall>p\<in>set (best_vertices pf).
           location (snd p) = fst p \<and> (parent (snd p) = None \<longrightarrow> fst p = u_tile (unit pf))"
    and qu: "\<forall>v\<in>set (queue pf). location v \<in> fst ` set (best_vertices pf)"
    by (simp_all add: pf_inv_def)
  from srt obtain pre mid post where m: "best_vertices pf = pre @ mid @ post"
    and ks: "keys_split (location v) pre mid post"
    using sorted_keys_split by blast
  obtain kept flag where s: "scan_bucket mid ins = (kept, flag)"
    by (cases "scan_bucket mid ins")
  note eq = maybe_insert_vertex_split [OF m ks Some s]
  have sub: "set kept \<subseteq> set mid"
    using s by (rule scan_bucket_subset)
  with ks have ks1: "keys_split (location v) pre kept post"
    and ks2: "keys_split (location v) pre (kept @ [(location v, ins)]) post"
    by (auto simp: keys_split_def)
  from srt m have sp: "sorted (map fst pre)" "sorted (map fst post)"
    by (simp_all add: sorted_append)
  from handle_turn_change_turns [OF Some] p
  have ins: "location ins = location v" "parent ins \<noteq> None"
    by simp_all
  from ks have midk: "\<forall>p\<in>set mid. fst p = location v"
    by (simp add: keys_split_def)
  show ?thesis
  proof (cases flag)
    case True
    then have bv': "best_vertices (maybe_insert_vertex r pf v)
                      = pre @ kept @ (location v, ins) # post"
      and q': "queue (maybe_insert_vertex r pf v) = queue pf @ [ins]"
      and u': "unit (maybe_insert_vertex r pf v) = unit pf"
      by (simp_all add: eq)
    have 1: "sorted (map fst (pre @ kept @ (location v, ins) # post))"
      using sorted_of_split [OF ks2 sp] by simp
    have 2: "\<forall>p\<in>set (pre @ kept @ (location v, ins) # post).
           location (snd p) = fst p \<and> (parent (snd p) = None \<longrightarrow> fst p = u_tile (unit pf))"
      using bv m sub ins by auto
    have keys: "fst ` set (best_vertices pf) \<subseteq> fst ` set (pre @ kept @ (location v, ins) # post)"
      using m midk by force
    have 3: "\<forall>w\<in>set (queue pf @ [ins]).
               location w \<in> fst ` set (pre @ kept @ (location v, ins) # post)"
      using qu keys ins(1) by auto
    from 1 2 3 show ?thesis
      unfolding pf_inv_def bv' q' u' by blast
  next
    case False
    then have bv': "best_vertices (maybe_insert_vertex r pf v) = pre @ kept @ post"
      and q': "queue (maybe_insert_vertex r pf v) = queue pf"
      and u': "unit (maybe_insert_vertex r pf v) = unit pf"
      by (simp_all add: eq)
    from False s obtain e where e: "e \<in> set kept"
      using scan_bucket_discarded [of mid ins kept] by auto
    with sub midk have ek: "fst e = location v"
      by auto
    have 1: "sorted (map fst (pre @ kept @ post))"
      using sorted_of_split [OF ks1 sp] .
    have 2: "\<forall>p\<in>set (pre @ kept @ post).
           location (snd p) = fst p \<and> (parent (snd p) = None \<longrightarrow> fst p = u_tile (unit pf))"
      using bv m sub by auto
    have keys: "fst ` set (best_vertices pf) \<subseteq> fst ` set (pre @ kept @ post)"
      using m midk e ek by force
    have 3: "\<forall>w\<in>set (queue pf). location w \<in> fst ` set (pre @ kept @ post)"
      using qu keys by auto
    from 1 2 3 show ?thesis
      unfolding pf_inv_def bv' q' u' by blast
  qed
qed



lemma set_queue_pop: "set (queue_pop q) \<subseteq> set q"
  using set_remove1_subset [of _ q] by (auto simp: queue_pop_def split: option.splits)












lemma unit_changed_new: "unit_changed r pf u' = path_finder_new r (unit pf)"
  by (cases pf) (simp add: unit_changed_def path_finder_new_def insert_initial_vertex_def
      clear_queue_empty Let_def)


lemma equal_range_filter:
  assumes "sorted (map fst m)"
  shows "equal_range m k = filter (\<lambda>p. fst p = k) m"
proof -
  from assms obtain pre mid post where m: "m = pre @ mid @ post"
    and ks: "keys_split k pre mid post"
    using sorted_keys_split by blast
  have "equal_range m k = mid"
    using ks unfolding m by (rule equal_range_of_split)
  moreover have "filter (\<lambda>p. fst p = k) pre = []" "filter (\<lambda>p. fst p = k) post = []"
    "filter (\<lambda>p. fst p = k) mid = mid"
    using ks by (auto simp: keys_split_def filter_empty_conv filter_id_conv)
  ultimately show ?thesis
    by (simp add: m)
qed

lemma frontier_ok_maybe_insert:
  assumes inv: "pf_inv pf" and ok: "frontier_ok pf"
  shows "frontier_ok (maybe_insert_vertex r pf v)"
proof (cases "handle_turn_change r (unit pf) v")
  case None
  then show ?thesis
    using ok by (simp add: maybe_insert_vertex_def)
next
  case (Some ins)
  from inv have srt: "sorted (map fst (best_vertices pf))"
    by (simp add: pf_inv_def)
  from srt obtain pre mid post where m: "best_vertices pf = pre @ mid @ post"
    and ks: "keys_split (location v) pre mid post"
    using sorted_keys_split by blast
  obtain kept flag where s: "scan_bucket mid ins = (kept, flag)"
    by (cases "scan_bucket mid ins")
  note eq = maybe_insert_vertex_split [OF m ks Some s]
  have sub: "set kept \<subseteq> set mid"
    using s by (rule scan_bucket_subset)
  with ks have ks1: "keys_split (location v) pre kept post"
    and ks2: "keys_split (location v) pre (kept @ [(location v, ins)]) post"
    by (auto simp: keys_split_def)
  from srt m have sp: "sorted (map fst pre)" "sorted (map fst post)"
    by (simp_all add: sorted_append)
  define m' where "m' = best_vertices (maybe_insert_vertex r pf v)"
  have m': "m' = pre @ kept @ (if flag then [(location v, ins)] else []) @ post"
    by (simp add: m'_def eq)
  have srt': "sorted (map fst m')"
    using sorted_of_split [OF ks1 sp] sorted_of_split [OF ks2 sp] by (auto simp: m')
  have old: "bucket (best_vertices pf) (location v) = map snd mid"
    using ks by (simp add: bucket_def m equal_range_of_split)
  have new: "bucket m' (location v) = map snd kept @ (if flag then [ins] else [])"
    using ks1 by (simp add: bucket_def m' equal_range_of_split equal_range_of_split_snoc)
  have here: "frontier_invariant (bucket m' (location v))"
  proof -
    from ok have "sorted_wrt (\<lambda>x y. \<not> vertex_comparable x y) (map snd mid)"
      by (simp add: frontier_ok_def old [symmetric] frontier_invariant_iff [symmetric])
    with s have "sorted_wrt (\<lambda>x y. \<not> vertex_comparable x y) (map snd kept)"
      by (rule scan_bucket_sorted_wrt)
    moreover have "flag \<Longrightarrow> \<forall>x\<in>set (map snd kept). \<not> vertex_comparable x ins"
      using s scan_bucket_inserted [of mid ins kept] by auto
    ultimately show ?thesis
      by (auto simp: new frontier_invariant_iff sorted_wrt_append)
  qed
  have other: "bucket m' k = bucket (best_vertices pf) k" if "k \<noteq> location v" for k
  proof -
    from ks sub that have "filter (\<lambda>p. fst p = k) kept = []" "filter (\<lambda>p. fst p = k) mid = []"
      by (auto simp: keys_split_def filter_empty_conv)
    moreover have "equal_range m' k = filter (\<lambda>p. fst p = k) m'"
      using srt' by (rule equal_range_filter)
    moreover have "equal_range (best_vertices pf) k = filter (\<lambda>p. fst p = k) (best_vertices pf)"
      using srt by (rule equal_range_filter)
    ultimately show ?thesis
      using that by (simp add: bucket_def m m')
  qed
  show ?thesis
    unfolding frontier_ok_def m'_def [symmetric]
  proof
    fix k
    show "frontier_invariant (bucket m' k)"
    proof (cases "k = location v")
      case True
      with here show ?thesis by simp
    next
      case False
      with other ok show ?thesis
        by (simp add: frontier_ok_def)
    qed
  qed
qed

lemma state_ok_process_vertex: "state_ok pf \<Longrightarrow> state_ok (process_vertex r pf v)"
proof -
  assume ok: "state_ok pf"
  have step: "state_ok (maybe_insert_vertex r s w)"
    if "state_ok s" "parent w = Some source" for s w source
    using that by (simp add: state_ok_def pf_inv_maybe_insert frontier_ok_maybe_insert)
  have "pf_inv (pf\<lparr>queue := queue_pop (queue pf)\<rparr>)"
    using ok set_queue_pop [of "queue pf"] by (auto simp: state_ok_def pf_inv_def)
  with ok have 1: "state_ok (pf\<lparr>queue := queue_pop (queue pf)\<rparr>)"
    by (simp add: state_ok_def frontier_ok_def)
  have "state_ok (expand r (pf\<lparr>queue := queue_pop (queue pf)\<rparr>) source)" for source
    using step 1 by (rule expand_preserves [where P = state_ok])
  with 1 show ?thesis
    by (simp add: process_vertex_def Let_def split: option.splits)
qed

lemma search_loop_state_ok:
  "search_loop r pf stop = Some y \<Longrightarrow> state_ok pf \<longrightarrow> state_ok (snd y)"
proof (induction rule: search_loop.raw_induct [rotated 1, consumes 1, case_names step])
  case (step loop r pf stop y)
  show ?case
  proof
    assume ok: "state_ok pf"
    show "state_ok (snd y)"
    proof (cases "queue_top (queue pf)")
      case None
      with step(2) ok show ?thesis by auto
    next
      case (Some v)
      show ?thesis
      proof (cases "location v = stop")
        case True
        with step(2) Some ok show ?thesis by auto
      next
        case False
        with step(2) Some have "loop r (process_vertex r pf v) stop = Some y"
          by simp
        then have "state_ok (process_vertex r pf v) \<longrightarrow> state_ok (snd y)"
          by (rule step(1))
        with ok show ?thesis
          by (simp add: state_ok_process_vertex)
      qed
    qed
  qed
qed

lemma find_path_state_ok:
  assumes fp: "find_path r pf dest = Some (Inr (res, pf'))" and ok: "state_ok pf"
  shows "state_ok pf'"
proof (cases "pf' = pf")
  case True
  with ok show ?thesis by simp
next
  case False
  with fp obtain d b where rs: "run_search r pf d = Some (Inr (b, pf'))"
    by (auto simp: find_path_def split: option.splits if_splits sum.splits bool.splits)
  with False have "search_loop r pf d = Some (b, pf')"
    by (auto simp: run_search_def Let_def split: if_splits option.splits)
  with ok show ?thesis
    using search_loop_state_ok by fastforce
qed

lemma state_ok_new: "state_ok (path_finder_new r u)"
proof -
  have "best_vertices (path_finder_new r u) = [(u_tile u, initial_vertex r u)]"
    by (simp add: path_finder_new_def insert_initial_vertex_def Let_def emplace_Nil
        initial_vertex_def)
  then have "frontier_invariant (bucket (best_vertices (path_finder_new r u)) k)" for k
    using equal_range_filter [of "[(u_tile u, initial_vertex r u)]" k]
    by (simp add: bucket_def frontier_invariant_iff)
  then show ?thesis
    by (simp add: state_ok_def frontier_ok_def pf_inv_new)
qed

text \<open>
  The invariant of the frontier holds of every bucket in every reachable state: every
  admission the path finder performs starts from a bucket without two comparable
  entries.
\<close>

lemma reachable_frontier_invariant:
  "reachable r u pf \<Longrightarrow> frontier_invariant (bucket (best_vertices pf) k)"
proof -
  have "reachable r u pf \<Longrightarrow> state_ok pf"
  proof (induction rule: reachable.induct)
    case constructed
    show ?case by (rule state_ok_new)
  next
    case (notified pf u')
    show ?case by (simp add: unit_changed_new state_ok_new)
  next
    case (searched pf dest res pf')
    then show ?case using find_path_state_ok by blast
  qed
  then show "reachable r u pf \<Longrightarrow> frontier_invariant (bucket (best_vertices pf) k)"
    by (simp add: state_ok_def frontier_ok_def)
qed





subsection \<open>The search loop\<close>

text \<open>
  C1. A run of the loop in which the popped vertex has no equal in the bucket of its
  location and is not skipped: \<^verbatim>\<open>std::find_if\<close> returns the end of the bucket, which is
  not \<^verbatim>\<open>best_vertices.end()\<close> because a vertex of a later tile follows, and that vertex
  is expanded.
\<close>

theorem stale_vertex_is_not_skipped:
  "queue_top (queue (path_finder_new stale_rules stale_unit)) = Some stale_root
   \<and> queue_top (queue (process_vertex stale_rules (path_finder_new stale_rules stale_unit)
                          stale_root)) = Some stale_better
   \<and> queue_top (queue stale_state) = Some stale_vertex
   \<and> \<not> list_ex (\<lambda>p. vertex_eq (snd p) stale_vertex)
          (equal_range (best_vertices stale_state) (location stale_vertex))
   \<and> current_best (stale_state\<lparr>queue := queue_pop (queue stale_state)\<rparr>) stale_vertex
       = Some stale_other
   \<and> process_vertex stale_rules stale_state stale_vertex
       = expand stale_rules (stale_state\<lparr>queue := queue_pop (queue stale_state)\<rparr>) stale_other
   \<and> length (queue (process_vertex stale_rules stale_state stale_vertex))
       = Suc (length (queue_pop (queue stale_state)))"
  by code_simp

text \<open>
  C9. A search that empties the queue, followed by a search for a tile that was reached:
  the first test of \<^verbatim>\<open>run_search\<close> reads the top of the empty queue.
\<close>

theorem run_search_reads_top_of_empty_queue:
  "find_path exhaust_rules (path_finder_new exhaust_rules exhaust_unit) (Some 2)
     = Some (Inr (empty_path, exhausted_state))
   \<and> queue exhausted_state = []
   \<and> find_path exhaust_rules exhausted_state (Some 1) = Some (Inl TopOfEmptyQueue)"
  by code_simp

end
